theory Spec2Isabelle
  imports Main "HOL-Library.Word"
begin

unbundle bit_operations_syntax

section \<open>EasyNixie: a shallow embedding of the driver\<close>

text \<open>
  The driver of \<^verbatim>\<open>EasyNixie.py\<close> buffers one tuple per tube and, on request,
  shifts two bytes per tube into a daisy chain of shift registers before one latch.
  Python integers are modelled as \<open>int\<close>, the object's attributes as the fields of a
  record, every pin write and every delay as an entry of an event log, and every
  exception as the \<open>Inl\<close> side of a sum.  The calls to \<^verbatim>\<open>print\<close> are left out.
\<close>

subsection \<open>Colour constants\<close>

definition EASY_NIXIE_BLUE :: int where "EASY_NIXIE_BLUE = 1"
definition EASY_NIXIE_GREEN :: int where "EASY_NIXIE_GREEN = 2"
definition EASY_NIXIE_RED :: int where "EASY_NIXIE_RED = 3"
definition EASY_NIXIE_WHITE :: int where "EASY_NIXIE_WHITE = 4"
definition EASY_NIXIE_RuB :: int where "EASY_NIXIE_RuB = 5"
definition EASY_NIXIE_RuG :: int where "EASY_NIXIE_RuG = 6"
definition EASY_NIXIE_BuG :: int where "EASY_NIXIE_BuG = 7"

text \<open>The seven values a caller is meant to pass as a colour.\<close>

definition nixie_colors :: "int list" where
  "nixie_colors = [EASY_NIXIE_BLUE, EASY_NIXIE_GREEN, EASY_NIXIE_RED, EASY_NIXIE_WHITE,
                   EASY_NIXIE_RuB, EASY_NIXIE_RuG, EASY_NIXIE_BuG]"

subsection \<open>State\<close>

datatype error = ValueError | IndexError | OverflowError

text \<open>A buffered tube: \<open>(digit, color, voltage, comma, dimming)\<close>, a tuple as in the source.\<close>

type_synonym tube = "int \<times> int \<times> bool \<times> bool \<times> int"

text \<open>
  What reaches the hardware, in order: a level written to one of the three control
  lines, a duty cycle written to the PWM output, a level written to the enable line
  where there is no PWM, or a delay (in microseconds).
\<close>

datatype event = Dsin bool | Shcp bool | Stcp bool | Duty int | OutEn bool | Sleep nat

record nixie =
  num_tubes :: int
  display_buffer :: "tube list"
  dimming_available :: bool
  duty_cycle :: int
  shcp :: bool
  stcp :: bool
  dsin :: bool
  wire :: "event list"

text \<open>
  The constructor.  Whether \<^verbatim>\<open>pwmio.PWMOut\<close> succeeds is decided by the board, so it
  is the parameter \<open>pwm_ok\<close>; in the fallback the enable line is a plain output held
  high, for which the record keeps the full duty cycle.  \<^verbatim>\<open>[t] * n\<close> is the empty
  list for \<open>n \<le> 0\<close>, as \<open>replicate (nat n)\<close> is.
\<close>

definition init :: "bool \<Rightarrow> int \<Rightarrow> nixie" where
  "init pwm_ok n =
     \<lparr> num_tubes = n,
       display_buffer = replicate (nat n) (10, EASY_NIXIE_WHITE, True, False, 0),
       dimming_available = pwm_ok,
       duty_cycle = 65535,
       shcp = False, stcp = False, dsin = False,
       wire = [Shcp False, Stcp False, Dsin False,
               if pwm_ok then Duty 65535 else OutEn True] \<rparr>"

text \<open>The buffer holds one entry per tube: true after \<open>init\<close>, and kept by every setter.\<close>

definition buffer_ok :: "nixie \<Rightarrow> bool" where
  "buffer_ok s = (int (length (display_buffer s)) = num_tubes s)"

subsection \<open>Python list indexing\<close>

text \<open>A negative index counts from the end; an index out of range raises.\<close>

definition py_index :: "'a list \<Rightarrow> int \<Rightarrow> error + nat" where
  "py_index xs i =
     (let k = (if i < 0 then i + int (length xs) else i)
      in if k < 0 \<or> int (length xs) \<le> k then Inl IndexError else Inr (nat k))"

definition getitem :: "'a list \<Rightarrow> int \<Rightarrow> error + 'a" where
  "getitem xs i = (case py_index xs i of Inl e \<Rightarrow> Inl e | Inr k \<Rightarrow> Inr (xs ! k))"

definition setitem :: "'a list \<Rightarrow> int \<Rightarrow> 'a \<Rightarrow> error + 'a list" where
  "setitem xs i v = (case py_index xs i of Inl e \<Rightarrow> Inl e | Inr k \<Rightarrow> Inr (xs[k := v]))"

subsection \<open>The serial link\<close>

text \<open>One bit of \<open>slow_shift_out\<close>: the body of its loop, for loop counter \<open>i\<close>.\<close>

definition shift_bit :: "int \<Rightarrow> nat \<Rightarrow> nixie \<Rightarrow> nixie" where
  "shift_bit data_byte i s =
     (let bit_pos = 7 - i;
          bit_value = (data_byte AND push_bit bit_pos 1 \<noteq> 0)
      in s\<lparr> dsin := bit_value, shcp := False,
            wire := wire s @ [Dsin bit_value, Sleep 1, Shcp True, Sleep 1, Shcp False, Sleep 1] \<rparr>)"

definition slow_shift_out :: "int \<Rightarrow> nixie \<Rightarrow> nixie" where
  "slow_shift_out data_byte s = fold (shift_bit data_byte) [0..<8] s"

definition latch :: "nixie \<Rightarrow> nixie" where
  "latch s = s\<lparr> stcp := True, wire := wire s @ [Stcp False, Sleep 1000, Stcp True] \<rparr>"

subsection \<open>Encoding one tube\<close>

text \<open>
  The colour step of \<open>_send_tube_data\<close>: seven tests in the order of the source, each
  clearing bits of the byte built so far.
\<close>

definition apply_color :: "int \<Rightarrow> int \<Rightarrow> int" where
  "apply_color color d0 =
     (let d1 = (if color = EASY_NIXIE_RED then d0 AND 0b11101111 else d0);
          d2 = (if color = EASY_NIXIE_GREEN then d1 AND 0b11110111 else d1);
          d3 = (if color = EASY_NIXIE_BLUE then d2 AND 0b11111011 else d2);
          d4 = (if color = EASY_NIXIE_WHITE then d3 AND 0b11100011 else d3);
          d5 = (if color = EASY_NIXIE_RuB then d4 AND 0b11101011 else d4);
          d6 = (if color = EASY_NIXIE_RuG then d5 AND 0b11100111 else d5)
      in (if color = EASY_NIXIE_BuG then d6 AND 0b11110011 else d6))"

text \<open>
  The bits a colour keeps: what the colour step leaves of a byte with all eight bits set.
\<close>

definition color_mask :: "int \<Rightarrow> int" where
  "color_mask color = apply_color color 0b11111111"

text \<open>The base pattern with the digit-8 and digit-9 flags, before the colour step.\<close>

definition flag_bits :: "int \<Rightarrow> int" where
  "flag_bits number =
     (let d0 = 0b00011100;
          d1 = (if number = 8 then d0 OR 0b00000001 else d0)
      in (if number = 9 then d1 OR 0b00000010 else d1))"

text \<open>The control byte, \<open>second_shift_register_data\<close> as it is shifted out.\<close>

definition second_shift_register_data :: "int \<Rightarrow> int \<Rightarrow> bool \<Rightarrow> bool \<Rightarrow> int" where
  "second_shift_register_data number color voltage comma =
     (let d0 = apply_color color (flag_bits number);
          d1 = (if voltage then d0 OR 0b00100000 else d0)
      in (if comma then d1 OR 0b01000000 else d1))"

text \<open>
  The digit byte.  Python's \<open>1 << number\<close> raises \<open>ValueError\<close> for a negative
  shift count; for \<open>0 \<le> number\<close> it is \<open>push_bit\<close>.
\<close>

definition first_shift_register_data :: "int \<Rightarrow> error + int" where
  "first_shift_register_data number =
     (if number < 8
      then (if number < 0 then Inl ValueError else Inr (push_bit (nat number) 1))
      else Inr 0)"

text \<open>
  \<open>_send_tube_data\<close>: the control byte is built and shifted, then the digit byte.
  When the digit byte cannot be computed the exception leaves the call.
\<close>

definition send_tube_data :: "int \<Rightarrow> int \<Rightarrow> bool \<Rightarrow> bool \<Rightarrow> nixie \<Rightarrow> error + nixie" where
  "send_tube_data number color voltage comma s =
     (let s1 = slow_shift_out (second_shift_register_data number color voltage comma) s
      in case first_shift_register_data number of
           Inl e \<Rightarrow> Inl e
         | Inr b \<Rightarrow> Inr (slow_shift_out b s1))"

subsection \<open>Loops that may raise\<close>

text \<open>
  A \<^verbatim>\<open>for\<close> loop whose body may raise: the items are visited in order, and the first
  exception ends the loop and becomes the result.
\<close>

fun for_each :: "('i \<Rightarrow> 's \<Rightarrow> error + 's) \<Rightarrow> 'i list \<Rightarrow> 's \<Rightarrow> error + 's" where
  "for_each body [] s = Inr s"
| "for_each body (i # rest) s =
     (case body i s of Inl e \<Rightarrow> Inl e | Inr s' \<Rightarrow> for_each body rest s')"

text \<open>\<^verbatim>\<open>range(n)\<close> for an integer \<open>n\<close>: empty when \<open>n \<le> 0\<close>.\<close>

definition py_range :: "int \<Rightarrow> int list" where
  "py_range n = map int [0..<nat n]"

text \<open>\<^verbatim>\<open>enumerate(xs)\<close>.\<close>

definition enumerate_py :: "'a list \<Rightarrow> (int \<times> 'a) list" where
  "enumerate_py xs = zip (py_range (int (length xs))) xs"

subsection \<open>Staging one tube\<close>

definition set_tube :: "int \<Rightarrow> int \<Rightarrow> int \<Rightarrow> bool \<Rightarrow> bool \<Rightarrow> int \<Rightarrow> nixie \<Rightarrow> error + nixie" where
  "set_tube tube_index number color voltage comma dimming s =
     (if 0 \<le> tube_index \<and> tube_index < num_tubes s
      then (case setitem (display_buffer s) tube_index (number, color, voltage, comma, dimming) of
              Inl e \<Rightarrow> Inl e
            | Inr b \<Rightarrow> Inr (s\<lparr> display_buffer := b \<rparr>))
      else Inr s)"

subsection \<open>Rendering the chain\<close>

text \<open>
  The duty cycle is \<^verbatim>\<open>int((dimming / 255.0) * 65535)\<close>, a floating-point computation
  that raises \<open>OverflowError\<close> where the brightness or the product is beyond the floats.
  It is not evaluated here: the conversion is the parameter \<open>to_duty\<close> of the functions
  that render, with \<open>Inl\<close> where it raises, and every theorem holds for each such
  function.
\<close>

text \<open>
  Modelled from the spec: the PWM output belongs to the board's \<^verbatim>\<open>pwmio\<close> module, which
  is not among the sources.  The spec gives it the fractions from 0.0 to 1.0 of the full
  duty cycle, here 0 to 65535; for any other value the setter of \<^verbatim>\<open>duty_cycle\<close> raises
  \<open>ValueError\<close> and nothing is written.
\<close>

definition set_duty_cycle :: "int \<Rightarrow> nixie \<Rightarrow> error + nixie" where
  "set_duty_cycle duty s =
     (if 0 \<le> duty \<and> duty \<le> 65535
      then Inr (s\<lparr> duty_cycle := duty, wire := wire s @ [Duty duty] \<rparr>)
      else Inl ValueError)"

text \<open>The brightness step of the loop of \<open>update_display\<close>: skipped where there is no PWM.\<close>

definition set_dimming :: "(int \<Rightarrow> error + int) \<Rightarrow> int \<Rightarrow> nixie \<Rightarrow> error + nixie" where
  "set_dimming to_duty dimming s =
     (if dimming_available s
      then (case to_duty dimming of
              Inl e \<Rightarrow> Inl e
            | Inr duty \<Rightarrow> set_duty_cycle duty s)
      else Inr s)"

text \<open>The body of the loop of \<open>update_display\<close>, for loop counter \<open>i\<close>.\<close>

definition render_tube :: "(int \<Rightarrow> error + int) \<Rightarrow> int \<Rightarrow> nixie \<Rightarrow> error + nixie" where
  "render_tube to_duty i s =
     (case getitem (display_buffer s) i of
        Inl e \<Rightarrow> Inl e
      | Inr (number, color, voltage, comma, dimming) \<Rightarrow>
          (case set_dimming to_duty dimming s of
             Inl e \<Rightarrow> Inl e
           | Inr s1 \<Rightarrow> send_tube_data number color voltage comma s1))"

text \<open>\<^verbatim>\<open>range(self.num_tubes - 1, -1, -1)\<close> is \<^verbatim>\<open>range(self.num_tubes)\<close> backwards.\<close>

definition update_display :: "(int \<Rightarrow> error + int) \<Rightarrow> nixie \<Rightarrow> error + nixie" where
  "update_display to_duty s =
     (case for_each (render_tube to_duty) (rev (py_range (num_tubes s))) s of
        Inl e \<Rightarrow> Inl e
      | Inr s' \<Rightarrow> Inr (latch s'))"

text \<open>
  The exact linear map of 0..255 onto 0..65535, \<open>d * 257\<close>.  It stands for the conversion
  where a concrete one is needed.
\<close>

definition duty_257 :: "int \<Rightarrow> error + int" where
  "duty_257 dimming = Inr (dimming * 257)"

text \<open>
  What one shifted byte puts on the wire: for each bit, from bit 7 down to bit 0, the
  data level and then one clock pulse.
\<close>

definition byte_events :: "int \<Rightarrow> event list" where
  "byte_events data_byte =
     concat (map (\<lambda>i. [Dsin (data_byte AND push_bit (7 - i) 1 \<noteq> 0),
                        Sleep 1, Shcp True, Sleep 1, Shcp False, Sleep 1]) [0..<8])"

text \<open>
  What rendering one tube puts on the wire: the duty cycle of its brightness where
  there is PWM, then the control byte, then the digit byte (nothing, where the
  conversion or the digit byte raises).
\<close>

definition tube_events :: "(int \<Rightarrow> error + int) \<Rightarrow> bool \<Rightarrow> tube \<Rightarrow> event list" where
  "tube_events to_duty pwm t =
     (case t of (number, color, voltage, comma, dimming) \<Rightarrow>
        (if pwm then (case to_duty dimming of Inl e \<Rightarrow> [] | Inr duty \<Rightarrow> [Duty duty]) else [])
        @ byte_events (second_shift_register_data number color voltage comma)
        @ (case first_shift_register_data number of Inl e \<Rightarrow> [] | Inr b \<Rightarrow> byte_events b))"

text \<open>The brightness of a tube can be set: the conversion returns a duty cycle in range.\<close>

definition duty_ok :: "(int \<Rightarrow> error + int) \<Rightarrow> int \<Rightarrow> bool" where
  "duty_ok to_duty dimming =
     (case to_duty dimming of Inl e \<Rightarrow> False | Inr duty \<Rightarrow> 0 \<le> duty \<and> duty \<le> 65535)"

text \<open>What a call has added to the wire; nothing if it raised.\<close>

definition rendered_events :: "nixie \<Rightarrow> error + nixie \<Rightarrow> event list" where
  "rendered_events s r = (case r of Inl e \<Rightarrow> [] | Inr s' \<Rightarrow> drop (length (wire s)) (wire s'))"

text \<open>The events ahead of the first rising edge of the latch line.\<close>

definition before_latch :: "event list \<Rightarrow> event list" where
  "before_latch evs = takeWhile (\<lambda>e. e \<noteq> Stcp True) evs"

text \<open>The brightness field of a buffered tube.\<close>

definition dimming_of :: "tube \<Rightarrow> int" where
  "dimming_of t = (case t of (number, color, voltage, comma, dimming) \<Rightarrow> dimming)"

text \<open>
  A tube the loop of \<open>update_display\<close> gets through: its digit is not negative and,
  where there is PWM, its brightness can be set.
\<close>

definition renderable :: "(int \<Rightarrow> error + int) \<Rightarrow> bool \<Rightarrow> tube \<Rightarrow> bool" where
  "renderable to_duty pwm t = (0 \<le> fst t \<and> (pwm \<longrightarrow> duty_ok to_duty (dimming_of t)))"

subsection \<open>Decimal strings\<close>

definition decimal_char :: "nat \<Rightarrow> char" where
  "decimal_char d = ''0123456789'' ! d"

text \<open>\<^verbatim>\<open>str(n)\<close> for \<open>n \<ge> 0\<close>: the decimal digits, most significant first.\<close>

fun str_nat :: "nat \<Rightarrow> string" where
  "str_nat n = (if n < 10 then [decimal_char n] else str_nat (n div 10) @ [decimal_char (n mod 10)])"

declare str_nat.simps [simp del]

definition py_str :: "int \<Rightarrow> string" where
  "py_str n = (if n < 0 then CHR ''-'' # str_nat (nat (- n)) else str_nat (nat n))"

definition isdigit :: "char \<Rightarrow> bool" where
  "isdigit c = (c \<in> set ''0123456789'')"

text \<open>\<^verbatim>\<open>int(c)\<close> for a one-character string: it raises unless the character is a digit.\<close>

definition py_int :: "char \<Rightarrow> error + int" where
  "py_int c = (if isdigit c then Inr (int (of_char c) - 48) else Inl ValueError)"

subsection \<open>Staging a number\<close>

text \<open>The string \<open>num_str\<close> of \<open>set_number\<close>: the decimal digits of the magnitude.\<close>

definition num_str_of :: "int \<Rightarrow> string" where
  "num_str_of number = (if number < 0 then py_str (abs number) else py_str number)"

text \<open>The three loops of \<open>set_number\<close>, each over the buffer alone.\<close>

definition blank_tube :: "int \<Rightarrow> int \<Rightarrow> int \<Rightarrow> tube list \<Rightarrow> error + tube list" where
  "blank_tube color dimming i b = setitem b i (10, color, True, False, dimming)"

definition fill_tube :: "int \<Rightarrow> int \<Rightarrow> int \<Rightarrow> int \<times> char \<Rightarrow> tube list \<Rightarrow> error + tube list" where
  "fill_tube n color dimming p b =
     (case p of (i, digit_char) \<Rightarrow>
        let tube_pos = n - 1 - i
        in if tube_pos \<ge> 0 \<and> isdigit digit_char
           then (case py_int digit_char of
                   Inl e \<Rightarrow> Inl e
                 | Inr d \<Rightarrow> setitem b tube_pos (d, color, True, False, dimming))
           else Inr b)"

definition zero_tube :: "int \<Rightarrow> int \<Rightarrow> int \<Rightarrow> tube list \<Rightarrow> error + tube list" where
  "zero_tube color dimming i b =
     (case getitem b i of
        Inl e \<Rightarrow> Inl e
      | Inr t \<Rightarrow> if fst t = 10 then setitem b i (0, color, True, False, dimming) else Inr b)"

definition set_number :: "int \<Rightarrow> int \<Rightarrow> bool \<Rightarrow> int \<Rightarrow> nixie \<Rightarrow> error + nixie" where
  "set_number number color leading_zeros dimming s =
     (let num_str = num_str_of number
      in case for_each (blank_tube color dimming) (py_range (num_tubes s)) (display_buffer s) of
           Inl e \<Rightarrow> Inl e
         | Inr b1 \<Rightarrow>
            (case for_each (fill_tube (num_tubes s) color dimming) (enumerate_py (rev num_str)) b1 of
               Inl e \<Rightarrow> Inl e
             | Inr b2 \<Rightarrow>
                if leading_zeros
                then (case for_each (zero_tube color dimming)
                             (py_range (num_tubes s - int (length num_str))) b2 of
                        Inl e \<Rightarrow> Inl e
                      | Inr b3 \<Rightarrow> Inr (s\<lparr> display_buffer := b3 \<rparr>))
                else Inr (s\<lparr> display_buffer := b2 \<rparr>)))"

text \<open>The digits in the buffer after a call, from index 0 on; none if the call raised.\<close>

definition buffered_digits :: "error + nixie \<Rightarrow> int list" where
  "buffered_digits r = (case r of Inl e \<Rightarrow> [] | Inr s \<Rightarrow> map fst (display_buffer s))"

subsection \<open>Clearing\<close>

definition clear :: "(int \<Rightarrow> error + int) \<Rightarrow> nixie \<Rightarrow> error + nixie" where
  "clear to_duty s =
     (case for_each (blank_tube EASY_NIXIE_WHITE 0) (py_range (num_tubes s)) (display_buffer s) of
        Inl e \<Rightarrow> Inl e
      | Inr b \<Rightarrow> update_display to_duty (s\<lparr> display_buffer := b \<rparr>))"

section \<open>Properties of the encoding\<close>

lemmas color_defs =
  EASY_NIXIE_BLUE_def EASY_NIXIE_GREEN_def EASY_NIXIE_RED_def EASY_NIXIE_WHITE_def
  EASY_NIXIE_RuB_def EASY_NIXIE_RuG_def EASY_NIXIE_BuG_def

lemmas control_byte_defs =
  second_shift_register_data_def flag_bits_def apply_color_def color_defs Let_def

subsection \<open>Digit byte and digit flags\<close>

lemma digit_byte_low:
  "0 \<le> d \<Longrightarrow> d \<le> 7 \<Longrightarrow> first_shift_register_data d = Inr (push_bit (nat d) 1)"
  by (simp add: first_shift_register_data_def)

lemma digit_byte_high: "8 \<le> d \<Longrightarrow> first_shift_register_data d = Inr 0"
  by (simp add: first_shift_register_data_def)

lemma digit_byte_negative: "d < 0 \<Longrightarrow> first_shift_register_data d = Inl ValueError"
  by (simp add: first_shift_register_data_def)

lemma one_hot: "bit ((2::int) ^ k) i \<longleftrightarrow> i = k"
  by (auto simp add: bit_exp_iff)

lemma digit_8_flag:
  "bit (second_shift_register_data number color voltage comma) 0 \<longleftrightarrow> number = 8"
  by (simp add: control_byte_defs bit_simps)

lemma digit_9_flag:
  "bit (second_shift_register_data number color voltage comma) 1 \<longleftrightarrow> number = 9"
  by (simp add: control_byte_defs bit_simps)

text \<open>
  C3.  For a digit from 0 to 7 the digit byte is \<open>1 << digit\<close>, whose only set bit is
  at the position of the digit.  For 8, 9 and the blank (10 in the buffer) the digit
  byte is 0.  In the control byte, bit 0 (the digit-8 flag) is set exactly when the
  digit is 8 and bit 1 (the digit-9 flag) exactly when it is 9, whatever the colour,
  the voltage and the comma: so neither is set for 0 to 7 or for the blank.
\<close>

theorem digit_and_flag_encoding:
  "(\<forall>d\<in>{0..7}. \<exists>b. first_shift_register_data d = Inr b \<and> b = push_bit (nat d) 1
                    \<and> (\<forall>i. bit b i \<longleftrightarrow> i = nat d))
   \<and> first_shift_register_data 8 = Inr 0
   \<and> first_shift_register_data 9 = Inr 0
   \<and> first_shift_register_data 10 = Inr 0
   \<and> (bit (second_shift_register_data number color voltage comma) 0 \<longleftrightarrow> number = 8)
   \<and> (bit (second_shift_register_data number color voltage comma) 1 \<longleftrightarrow> number = 9)"
proof -
  have "\<forall>d\<in>{0..7}. \<exists>b. first_shift_register_data d = Inr b \<and> b = push_bit (nat d) 1
                    \<and> (\<forall>i. bit b i \<longleftrightarrow> i = nat d)"
    by (simp add: digit_byte_low one_hot)
  then show ?thesis
    using digit_8_flag [of number color voltage comma]
      digit_9_flag [of number color voltage comma]
    by (simp add: digit_byte_high)
qed

theorem digit_and_flag_encoding_witness:
  "(5::int) \<in> {0..7} \<and> first_shift_register_data 5 = Inr 32
   \<and> bit (second_shift_register_data 8 EASY_NIXIE_RED True False) 0
   \<and> \<not> bit (second_shift_register_data 8 EASY_NIXIE_RED True False) 1"
proof -
  note t = digit_and_flag_encoding [of 8 EASY_NIXIE_RED True False]
  from t have "\<forall>d\<in>{0..7}. \<exists>b. first_shift_register_data d = Inr b \<and> b = push_bit (nat d) 1
                    \<and> (\<forall>i. bit b i \<longleftrightarrow> i = nat d)"
    by (rule conjunct1)
  then have "\<exists>b. first_shift_register_data 5 = Inr b \<and> b = push_bit (nat 5) 1
                    \<and> (\<forall>i. bit b i \<longleftrightarrow> i = nat 5)"
    by (rule bspec) simp
  then have "first_shift_register_data 5 = Inr 32"
    by (auto simp add: push_bit_eq_mult)
  with t show ?thesis by simp
qed

subsection \<open>Colours\<close>

lemma color_masks:
  "map color_mask nixie_colors =
     [0b11111011, 0b11110111, 0b11101111, 0b11100011, 0b11101011, 0b11100111, 0b11110011]"
  by (simp add: nixie_colors_def color_mask_def apply_color_def color_defs)

lemma apply_color_mask: "c \<in> set nixie_colors \<Longrightarrow> apply_color c b = b AND color_mask c"
  by (auto simp add: nixie_colors_def color_mask_def apply_color_def color_defs)

lemma apply_color_other: "c \<notin> set nixie_colors \<Longrightarrow> apply_color c b = b"
  by (simp add: nixie_colors_def apply_color_def color_defs)

text \<open>The colour bits of the control byte are those the colour step leaves of the base.\<close>

lemma color_part:
  "second_shift_register_data n c v k AND 0b00011100 = apply_color c 0b00011100"
  by (simp add: control_byte_defs)

lemma color_parts:
  "map (\<lambda>c. apply_color c 0b00011100) nixie_colors = [24, 20, 12, 0, 8, 4, 16]"
  by (simp add: nixie_colors_def apply_color_def color_defs)

lemma color_part_inj: "inj_on (\<lambda>c. apply_color c 0b00011100) (set nixie_colors)"
proof -
  have "distinct (map (\<lambda>c. apply_color c 0b00011100) nixie_colors)"
    unfolding color_parts by simp
  then show ?thesis by (simp add: distinct_map)
qed

lemma control_byte_inj:
  assumes "c1 \<in> set nixie_colors" "c2 \<in> set nixie_colors" "c1 \<noteq> c2"
  shows "second_shift_register_data n c1 v k \<noteq> second_shift_register_data n c2 v k"
proof
  assume "second_shift_register_data n c1 v k = second_shift_register_data n c2 v k"
  then have "apply_color c1 0b00011100 = apply_color c2 0b00011100"
    using color_part [of n c1 v k] color_part [of n c2 v k] by simp
  with assms show False
    using color_part_inj by (auto dest: inj_onD)
qed

lemma control_byte_other:
  assumes "c \<notin> set nixie_colors" "c' \<in> set nixie_colors"
  shows "second_shift_register_data n c v k \<noteq> second_shift_register_data n c' v k"
proof
  assume "second_shift_register_data n c v k = second_shift_register_data n c' v k"
  then have "apply_color c 0b00011100 = apply_color c' 0b00011100"
    using color_part [of n c v k] color_part [of n c' v k] by simp
  then have "apply_color c' 0b00011100 = 0b00011100"
    using assms(1) by (simp add: apply_color_other)
  moreover have "apply_color c' 0b00011100 \<in> set (map (\<lambda>c. apply_color c 0b00011100) nixie_colors)"
    using assms(2) by simp
  ultimately show False
    unfolding color_parts by simp
qed

lemma color_bits_other:
  assumes "c \<notin> set nixie_colors"
  shows "bit (second_shift_register_data n c v k) 2"
    and "bit (second_shift_register_data n c v k) 3"
    and "bit (second_shift_register_data n c v k) 4"
  using assms by (simp_all add: nixie_colors_def control_byte_defs bit_simps)

lemma send_tube_data_fails_iff: "(\<exists>e. send_tube_data n c v k s = Inl e) \<longleftrightarrow> n < 0"
  by (auto simp add: send_tube_data_def first_shift_register_data_def Let_def)

lemma send_tube_data_negative: "n < 0 \<Longrightarrow> send_tube_data n c v k s = Inl ValueError"
  by (simp add: send_tube_data_def first_shift_register_data_def Let_def)

text \<open>
  C7.  Each of the seven colours has a fixed mask, the seven masks are pairwise
  different, the colour step is the bitwise AND with the mask of the colour, and two
  different colours of the seven give two different control bytes when the digit, the
  voltage and the comma are the same.
\<close>

theorem color_encoding_injective:
  "map color_mask nixie_colors =
     [0b11111011, 0b11110111, 0b11101111, 0b11100011, 0b11101011, 0b11100111, 0b11110011]
   \<and> distinct (map color_mask nixie_colors)
   \<and> (\<forall>c\<in>set nixie_colors. \<forall>b. apply_color c b = b AND color_mask c)
   \<and> (\<forall>c1\<in>set nixie_colors. \<forall>c2\<in>set nixie_colors. c1 \<noteq> c2 \<longrightarrow>
        (\<forall>n v k. second_shift_register_data n c1 v k \<noteq> second_shift_register_data n c2 v k))"
proof -
  have "distinct (map color_mask nixie_colors)"
    unfolding color_masks by simp
  then show ?thesis
    using color_masks apply_color_mask control_byte_inj by blast
qed

theorem color_encoding_injective_witness:
  "EASY_NIXIE_RED \<in> set nixie_colors \<and> EASY_NIXIE_RuG \<in> set nixie_colors
   \<and> EASY_NIXIE_RED \<noteq> EASY_NIXIE_RuG
   \<and> apply_color EASY_NIXIE_RED 0b00011100 = 0b00001100
   \<and> second_shift_register_data 9 EASY_NIXIE_RED True False
       \<noteq> second_shift_register_data 9 EASY_NIXIE_RuG True False"
proof -
  have m: "EASY_NIXIE_RED \<in> set nixie_colors" "EASY_NIXIE_RuG \<in> set nixie_colors"
    and ne: "EASY_NIXIE_RED \<noteq> EASY_NIXIE_RuG"
    by (simp_all add: nixie_colors_def color_defs)
  note t = color_encoding_injective
  from t m(1) have "apply_color EASY_NIXIE_RED 0b00011100 = 0b00011100 AND color_mask EASY_NIXIE_RED"
    by blast
  then have "apply_color EASY_NIXIE_RED 0b00011100 = 0b00001100"
    by (simp add: color_mask_def apply_color_def color_defs)
  moreover from t m ne have "second_shift_register_data 9 EASY_NIXIE_RED True False
       \<noteq> second_shift_register_data 9 EASY_NIXIE_RuG True False"
    by blast
  ultimately show ?thesis using m ne by simp
qed

text \<open>
  C10.  A colour that is none of the seven passes the colour step unchanged: no mask
  is applied, the three colour bits (2, 3 and 4) of the control byte stay set, and the
  control byte differs from the one of each of the seven colours for the same digit,
  voltage and comma.  The colour raises nothing: sending the tube fails exactly when
  the digit is negative, as it does for every colour.
\<close>

theorem undefined_color_encoding:
  assumes "color \<notin> set nixie_colors"
  shows "(\<forall>b. apply_color color b = b)
    \<and> bit (second_shift_register_data number color voltage comma) 2
    \<and> bit (second_shift_register_data number color voltage comma) 3
    \<and> bit (second_shift_register_data number color voltage comma) 4
    \<and> (\<forall>c\<in>set nixie_colors.
          second_shift_register_data number color voltage comma
            \<noteq> second_shift_register_data number c voltage comma)
    \<and> ((\<exists>e. send_tube_data number color voltage comma s = Inl e) \<longleftrightarrow> number < 0)"
  using assms
  by (simp add: apply_color_other color_bits_other control_byte_other send_tube_data_fails_iff)

theorem undefined_color_encoding_witness:
  "(0::int) \<notin> set nixie_colors \<and> (8::int) \<notin> set nixie_colors
   \<and> second_shift_register_data 3 0 True False = 0b00111100
   \<and> second_shift_register_data 3 8 True False
        \<noteq> second_shift_register_data 3 EASY_NIXIE_WHITE True False
   \<and> (\<exists>s'. send_tube_data 3 0 True False (init True 1) = Inr s')"
proof -
  have out: "(0::int) \<notin> set nixie_colors" "(8::int) \<notin> set nixie_colors"
    and w: "EASY_NIXIE_WHITE \<in> set nixie_colors"
    by (simp_all add: nixie_colors_def color_defs)
  have "second_shift_register_data 3 8 True False
        \<noteq> second_shift_register_data 3 EASY_NIXIE_WHITE True False"
    using undefined_color_encoding [OF out(2), of 3 True False "init True 1"] w by blast
  moreover have "\<not> (\<exists>e. send_tube_data 3 0 True False (init True 1) = Inl e)"
    using undefined_color_encoding [OF out(1), of 3 True False "init True 1"] by simp
  then have "\<exists>s'. send_tube_data 3 0 True False (init True 1) = Inr s'"
    by (cases "send_tube_data 3 0 True False (init True 1)") auto
  moreover have "second_shift_register_data 3 0 True False = 0b00111100"
    by (simp add: control_byte_defs)
  ultimately show ?thesis using out by simp
qed

section \<open>Properties of the setters\<close>

subsection \<open>Loops and indexing\<close>

lemma for_each_append:
  "for_each body (xs @ ys) s =
     (case for_each body xs s of Inl e \<Rightarrow> Inl e | Inr s' \<Rightarrow> for_each body ys s')"
  by (induction xs arbitrary: s) (auto split: sum.splits)

lemma py_index_in: "0 \<le> i \<Longrightarrow> i < int (length xs) \<Longrightarrow> py_index xs i = Inr (nat i)"
  by (simp add: py_index_def)

lemma setitem_in: "0 \<le> i \<Longrightarrow> i < int (length xs) \<Longrightarrow> setitem xs i v = Inr (xs[nat i := v])"
  by (simp add: setitem_def py_index_in)

lemma getitem_in: "0 \<le> i \<Longrightarrow> i < int (length xs) \<Longrightarrow> getitem xs i = Inr (xs ! nat i)"
  by (simp add: getitem_def py_index_in)

lemma blank_loop:
  "k \<le> length b \<Longrightarrow>
   for_each (blank_tube c d) (map int [0..<k]) b = Inr (replicate k (10, c, True, False, d) @ drop k b)"
proof (induction k)
  case 0
  then show ?case by simp
next
  case (Suc k)
  let ?t = "(10, c, True, False, d)"
  from Suc have k: "k < length b" by simp
  then have "drop k b = b ! k # drop (Suc k) b"
    by (simp add: Cons_nth_drop_Suc)
  then have "(replicate k ?t @ drop k b)[k := ?t] = replicate (Suc k) ?t @ drop (Suc k) b"
    by (simp add: list_update_append replicate_append_same)
  moreover have "blank_tube c d (int k) (replicate k ?t @ drop k b) = Inr ((replicate k ?t @ drop k b)[k := ?t])"
    using k by (simp add: blank_tube_def setitem_in)
  ultimately show ?case
    using Suc by (simp add: for_each_append)
qed

lemma fill_loop:
  assumes "\<forall>ch\<in>set cs. isdigit ch" and "length b = n"
  shows "\<exists>b'. for_each (fill_tube (int n) c d) (zip (map int [i0..<i0 + length cs]) cs) b = Inr b'
          \<and> length b' = n
          \<and> (\<forall>p<n. b' ! p = (if i0 \<le> n - 1 - p \<and> n - 1 - p < i0 + length cs
                               then (int (of_char (cs ! (n - 1 - p - i0))) - 48, c, True, False, d)
                               else b ! p))"
  using assms
proof (induction cs arbitrary: i0 b)
  case Nil
  then show ?case by auto
next
  case (Cons ch rest)
  let ?t = "(int (of_char ch) - 48, c, True, False, d)"
  define b1 where "b1 = (if i0 < n then b[n - 1 - i0 := ?t] else b)"
  have idx: "[i0..<i0 + length (ch # rest)] = i0 # [Suc i0..<Suc i0 + length rest]"
    using upt_conv_Cons [of i0 "Suc (i0 + length rest)"] by simp
  have step: "fill_tube (int n) c d (int i0, ch) b = Inr b1"
  proof (cases "i0 < n")
    case True
    then have "int n - 1 - int i0 \<ge> 0" "int n - 1 - int i0 < int (length b)" "nat (int n - 1 - int i0) = n - 1 - i0"
      using Cons.prems(2) by auto
    then show ?thesis
      using Cons.prems(1) True by (simp add: fill_tube_def py_int_def setitem_in b1_def)
  next
    case False
    then show ?thesis by (simp add: fill_tube_def b1_def)
  qed
  have len1: "length b1 = n" using Cons.prems(2) by (simp add: b1_def)
  from Cons.IH [of b1 "Suc i0"] Cons.prems(1) len1
  obtain b' where b': "for_each (fill_tube (int n) c d) (zip (map int [Suc i0..<Suc i0 + length rest]) rest) b1 = Inr b'"
      "length b' = n"
      "\<forall>p<n. b' ! p = (if Suc i0 \<le> n - 1 - p \<and> n - 1 - p < Suc i0 + length rest
                               then (int (of_char (rest ! (n - 1 - p - Suc i0))) - 48, c, True, False, d)
                               else b1 ! p)"
    by auto
  have "\<forall>p<n. b' ! p = (if i0 \<le> n - 1 - p \<and> n - 1 - p < i0 + length (ch # rest)
                               then (int (of_char ((ch # rest) ! (n - 1 - p - i0))) - 48, c, True, False, d)
                               else b ! p)"
  proof (intro allI impI)
    fix p assume p: "p < n"
    show "b' ! p = (if i0 \<le> n - 1 - p \<and> n - 1 - p < i0 + length (ch # rest)
                               then (int (of_char ((ch # rest) ! (n - 1 - p - i0))) - 48, c, True, False, d)
                               else b ! p)"
    proof (cases "n - 1 - p = i0")
      case True
      then have "p = n - 1 - i0" "i0 < n" using p by auto
      then show ?thesis using b'(3) p True Cons.prems(2) by (simp add: b1_def)
    next
      case False
      then have "b1 ! p = b ! p" using p by (auto simp add: b1_def nth_list_update)
      moreover have "(ch # rest) ! (n - 1 - p - i0) = rest ! (n - 1 - p - Suc i0)"
        if "i0 \<le> n - 1 - p"
      proof -
        from that False have "n - 1 - p - i0 = Suc (n - 1 - p - Suc i0)" by arith
        then show ?thesis by (simp only: nth_Cons_Suc)
      qed
      ultimately show ?thesis using b'(3) p False by auto
    qed
  qed
  with b'(1,2) step idx show ?case by simp
qed

lemma zero_loop:
  "k \<le> length b \<Longrightarrow>
   for_each (zero_tube c d) (map int [0..<k]) b
     = Inr (map (\<lambda>t. if fst t = 10 then (0, c, True, False, d) else t) (take k b) @ drop k b)"
proof (induction k)
  case 0
  then show ?case by simp
next
  case (Suc k)
  let ?f = "\<lambda>t. if fst t = 10 then (0, c, True, False, d) else t"
  let ?bk = "map ?f (take k b) @ drop k b"
  from Suc have k: "k < length b" by simp
  then have dr: "drop k b = b ! k # drop (Suc k) b"
    by (simp add: Cons_nth_drop_Suc)
  have nth: "?bk ! k = b ! k" using k by (simp add: nth_append)
  have "zero_tube c d (int k) ?bk = Inr (map ?f (take (Suc k) b) @ drop (Suc k) b)"
  proof (cases "fst (b ! k) = 10")
    case True
    have "?bk[k := (0, c, True, False, d)] = map ?f (take (Suc k) b) @ drop (Suc k) b"
      using k dr True by (simp add: list_update_append take_Suc_conv_app_nth)
    then show ?thesis
      using k True nth by (simp add: zero_tube_def getitem_in setitem_in)
  next
    case False
    have "?bk = map ?f (take (Suc k) b) @ drop (Suc k) b"
      using k dr False by (simp add: take_Suc_conv_app_nth)
    then show ?thesis
      using k False nth by (simp add: zero_tube_def getitem_in)
  qed
  then show ?case
    using Suc by (simp add: for_each_append)
qed


lemma num_str_abs: "num_str_of number = str_nat (nat \<bar>number\<bar>)"
  by (simp add: num_str_of_def py_str_def)

lemma decimal_char_isdigit: "d < 10 \<Longrightarrow> isdigit (decimal_char d)"
proof -
  assume "d < 10"
  then have "d \<in> {0,1,2,3,4,5,6,7,8,9}" by auto
  then show ?thesis by (auto simp add: isdigit_def decimal_char_def)
qed

lemma of_char_decimal_char: "d < 10 \<Longrightarrow> int (of_char (decimal_char d)) - 48 = int d"
proof -
  assume "d < 10"
  then have "d \<in> {0,1,2,3,4,5,6,7,8,9}" by auto
  then show ?thesis by (auto simp add: decimal_char_def)
qed

lemma str_nat_length: "0 < length (str_nat n)"
  by (subst str_nat.simps) simp

lemma str_nat_rev_nth:
  "i < length (str_nat n) \<Longrightarrow> rev (str_nat n) ! i = decimal_char ((n div 10 ^ i) mod 10)"
proof (induction n arbitrary: i rule: str_nat.induct)
  case (1 n)
  show ?case
  proof (cases "n < 10")
    case True
    with 1(2) show ?thesis by (simp add: str_nat.simps [of n])
  next
    case False
    show ?thesis
    proof (cases i)
      case 0
      with False show ?thesis by (simp add: str_nat.simps [of n])
    next
      case (Suc j)
      with False 1(2) have "j < length (str_nat (n div 10))"
        by (simp add: str_nat.simps [of n])
      with 1(1) [OF False] have "rev (str_nat (n div 10)) ! j = decimal_char ((n div 10 div 10 ^ j) mod 10)"
        by simp
      with False Suc show ?thesis
        by (simp add: str_nat.simps [of n] div_mult2_eq)
    qed
  qed
qed

lemma str_nat_isdigit: "\<forall>ch\<in>set (str_nat n). isdigit ch"
proof -
  have "isdigit (rev (str_nat n) ! i)" if "i < length (str_nat n)" for i
    using that by (simp add: str_nat_rev_nth decimal_char_isdigit)
  then have "\<forall>ch\<in>set (rev (str_nat n)). isdigit ch"
    by (auto simp add: in_set_conv_nth simp del: set_rev)
  then show ?thesis by simp
qed

text \<open>
  What \<open>set_number\<close> leaves in the buffer: the tube at distance \<open>k\<close> from the last index
  holds the digit of weight \<open>10 ^ k\<close> when the number has one, and a blank or a zero
  otherwise.
\<close>

lemma set_number_buffer:
  assumes "buffer_ok s"
  shows "\<exists>b'. set_number number color leading_zeros dimming s = Inr (s\<lparr>display_buffer := b'\<rparr>)
     \<and> length b' = nat (num_tubes s)
     \<and> (\<forall>p<nat (num_tubes s). b' ! p =
          (if nat (num_tubes s) - 1 - p < length (str_nat (nat \<bar>number\<bar>))
           then (\<bar>number\<bar> div 10 ^ (nat (num_tubes s) - 1 - p) mod 10, color, True, False, dimming)
           else (if leading_zeros then 0 else 10, color, True, False, dimming)))"
proof -
  define n where "n = nat (num_tubes s)"
  define m where "m = nat \<bar>number\<bar>"
  define str where "str = str_nat m"
  define blank where "blank = (10::int, color, True, False, dimming)"
  have n: "num_tubes s = int n" "length (display_buffer s) = n"
    using assms by (auto simp add: buffer_ok_def n_def)
  have b1: "for_each (blank_tube color dimming) (py_range (num_tubes s)) (display_buffer s) = Inr (replicate n blank)"
    using blank_loop [of n "display_buffer s" color dimming] n by (simp add: py_range_def blank_def)
  have "\<forall>ch\<in>set (rev str). isdigit ch"
    using str_nat_isdigit [of m] by (simp add: str_def)
  from fill_loop [OF this, of "replicate n blank" n color dimming 0]
  obtain b2 where b2: "for_each (fill_tube (int n) color dimming) (enumerate_py (rev str)) (replicate n blank) = Inr b2"
    "length b2 = n"
    "\<forall>p<n. b2 ! p = (if n - 1 - p < length str
                               then (int (of_char (rev str ! (n - 1 - p))) - 48, color, True, False, dimming)
                               else blank)"
    by (auto simp add: enumerate_py_def py_range_def)
  have digit: "int (of_char (rev str ! i)) - 48 = \<bar>number\<bar> div 10 ^ i mod 10" if "i < length str" for i
  proof -
    have "rev str ! i = decimal_char ((m div 10 ^ i) mod 10)"
      using that by (simp add: str_def str_nat_rev_nth)
    then have "int (of_char (rev str ! i)) - 48 = int ((m div 10 ^ i) mod 10)"
      by (simp add: of_char_decimal_char)
    also have "\<dots> = \<bar>number\<bar> div 10 ^ i mod 10"
      by (simp add: m_def zdiv_int zmod_int)
    finally show ?thesis .
  qed
  have b2': "\<forall>p<n. b2 ! p = (if n - 1 - p < length str
                               then (\<bar>number\<bar> div 10 ^ (n - 1 - p) mod 10, color, True, False, dimming)
                               else blank)"
    using b2(3) digit by simp
  have "\<exists>b'. set_number number color leading_zeros dimming s = Inr (s\<lparr>display_buffer := b'\<rparr>)
     \<and> length b' = n
     \<and> (\<forall>p<n. b' ! p =
          (if n - 1 - p < length str
           then (\<bar>number\<bar> div 10 ^ (n - 1 - p) mod 10, color, True, False, dimming)
           else (if leading_zeros then 0 else 10, color, True, False, dimming)))"
  proof (cases leading_zeros)
    case False
    have "set_number number color leading_zeros dimming s = Inr (s\<lparr>display_buffer := b2\<rparr>)"
      using False b1 b2(1)
      unfolding set_number_def num_str_abs Let_def m_def [symmetric] str_def [symmetric]
      by (simp add: n(1))
    with b2(2) b2' False show ?thesis
      by (auto simp add: blank_def)
  next
    case True
    let ?f = "\<lambda>t. if fst t = 10 then (0, color, True, False, dimming) else t"
    let ?k = "n - length str"
    let ?b3 = "map ?f (take ?k b2) @ drop ?k b2"
    have k: "nat (int n - int (length str)) = ?k" by simp
    have b3: "for_each (zero_tube color dimming) (py_range (num_tubes s - int (length str))) b2 = Inr ?b3"
      using zero_loop [of ?k b2 color dimming] b2(2) by (simp add: py_range_def n(1) k)
    have nth3: "?b3 ! p = (if n - 1 - p < length str
                               then (\<bar>number\<bar> div 10 ^ (n - 1 - p) mod 10, color, True, False, dimming)
                               else (0, color, True, False, dimming))" if p: "p < n" for p
    proof (cases "p < ?k")
      case True
      then have "\<not> n - 1 - p < length str" by auto
      with True p b2' b2(2) show ?thesis by (simp add: nth_append blank_def)
    next
      case False
      then have "n - 1 - p < length str" using p by auto
      with False p b2' b2(2) show ?thesis by (simp add: nth_append)
    qed
    have len3: "length ?b3 = n" using b2(2) by simp
    have "set_number number color leading_zeros dimming s = Inr (s\<lparr>display_buffer := ?b3\<rparr>)"
      using True b1 b2(1) b3
      unfolding set_number_def num_str_abs Let_def m_def [symmetric] str_def [symmetric]
      by (simp add: n(1))
    with len3 nth3 True show ?thesis
      by (intro exI [of _ ?b3]) simp
  qed
  then show ?thesis
    unfolding str_def m_def n_def .
qed

lemma init_buffer_ok: "0 \<le> n \<Longrightarrow> buffer_ok (init pwm_ok n)"
  by (simp add: buffer_ok_def init_def)

lemma list_of_two: "length xs = 2 \<Longrightarrow> xs = [xs ! 0, xs ! 1]"
  by (cases xs; cases "tl xs") auto

text \<open>The length of the decimal string is the number of decimal digits.\<close>

lemma str_nat_upper: "n < 10 ^ length (str_nat n)"
proof (induction n rule: str_nat.induct)
  case (1 n)
  show ?case
  proof (cases "n < 10")
    case True
    then show ?thesis by (simp add: str_nat.simps [of n])
  next
    case False
    with 1 have "n div 10 < 10 ^ length (str_nat (n div 10))" by simp
    then have "n < 10 * 10 ^ length (str_nat (n div 10))" by linarith
    with False show ?thesis by (simp add: str_nat.simps [of n])
  qed
qed

lemma str_nat_lower: "0 < n \<Longrightarrow> 10 ^ (length (str_nat n) - 1) \<le> n"
proof (induction n rule: str_nat.induct)
  case (1 n)
  show ?case
  proof (cases "n < 10")
    case True
    with 1(2) show ?thesis by (simp add: str_nat.simps [of n])
  next
    case False
    then have "0 < n div 10" by simp
    with 1(1) [OF False] have "10 ^ (length (str_nat (n div 10)) - 1) \<le> n div 10" by simp
    then have "10 * 10 ^ (length (str_nat (n div 10)) - 1) \<le> n" by linarith
    moreover have "length (str_nat n) - 1 = Suc (length (str_nat (n div 10)) - 1)"
      using False str_nat_length [of "n div 10"] by (simp add: str_nat.simps [of n])
    ultimately show ?thesis by simp
  qed
qed

subsection \<open>\<open>set_tube\<close>\<close>

lemma set_tube_in_range:
  "buffer_ok s \<Longrightarrow> 0 \<le> i \<Longrightarrow> i < num_tubes s \<Longrightarrow>
   set_tube i number color voltage comma dimming s
     = Inr (s\<lparr>display_buffer := (display_buffer s)[nat i := (number, color, voltage, comma, dimming)]\<rparr>)"
  by (simp add: set_tube_def buffer_ok_def setitem_in)

text \<open>
  C5.  With a tube index below 0, or equal to or above \<open>num_tubes\<close>, \<open>set_tube\<close>
  returns without an exception and the state, so the display buffer, is the one it was
  given, whatever the digit, colour, voltage, comma and brightness.
\<close>

theorem set_tube_out_of_range:
  "tube_index < 0 \<or> num_tubes s \<le> tube_index \<Longrightarrow>
   set_tube tube_index number color voltage comma dimming s = Inr s"
  by (auto simp add: set_tube_def)

theorem set_tube_out_of_range_witness:
  "((-1 :: int) < 0 \<or> num_tubes (init True 2) \<le> -1)
   \<and> set_tube (-1) 5 EASY_NIXIE_RED True False 255 (init True 2) = Inr (init True 2)
   \<and> ((2 :: int) < 0 \<or> num_tubes (init True 2) \<le> 2)
   \<and> set_tube 2 5 EASY_NIXIE_RED True False 255 (init True 2) = Inr (init True 2)"
proof -
  have a: "(-1 :: int) < 0 \<or> num_tubes (init True 2) \<le> -1"
    and b: "(2 :: int) < 0 \<or> num_tubes (init True 2) \<le> 2"
    by (simp_all add: init_def)
  show ?thesis
    using a b set_tube_out_of_range [OF a, of 5 EASY_NIXIE_RED True False 255]
      set_tube_out_of_range [OF b, of 5 EASY_NIXIE_RED True False 255]
    by simp
qed

subsection \<open>\<open>set_number\<close>\<close>

lemma str_nat_42: "str_nat 42 = ''42''"
  by code_simp

lemma str_nat_137: "str_nat 137 = ''137''"
  by code_simp

text \<open>
  C1, as the claim states it, at the defaults of \<open>set_number\<close> on a fresh chain of two
  tubes: index 0 does not hold digit 2 with index 1 holding digit 4.
\<close>

theorem set_number_42_index_0_counterexample:
  "\<not> (buffered_digits (set_number 42 EASY_NIXIE_WHITE False 255 (init True 2)) ! 0 = 2
      \<and> buffered_digits (set_number 42 EASY_NIXIE_WHITE False 255 (init True 2)) ! 1 = 4)"
  by code_simp

text \<open>
  C1, amended.  On a chain of two tubes, \<open>set_number\<close> with 42 and no leading zeros
  returns with digit 2 at index 1, the last index, and digit 4 at index 0: the digits
  are laid out with the units at the last index, the end that \<open>update_display\<close> shifts
  out first.
\<close>

theorem set_number_42_two_tubes:
  assumes "buffer_ok s" and "num_tubes s = 2"
  shows "set_number 42 color False dimming s
    = Inr (s\<lparr>display_buffer := [(4, color, True, False, dimming), (2, color, True, False, dimming)]\<rparr>)"
proof -
  from set_number_buffer [OF assms(1), of 42 color False dimming] assms(2)
  obtain b' where b': "set_number 42 color False dimming s = Inr (s\<lparr>display_buffer := b'\<rparr>)"
    "length b' = 2"
    "\<forall>p<2. b' ! p = (if 2 - 1 - p < length (str_nat 42)
           then (42 div 10 ^ (2 - 1 - p) mod 10, color, True, False, dimming)
           else (10, color, True, False, dimming))"
    by auto
  from b'(3) have "b' ! 0 = (4, color, True, False, dimming)" "b' ! 1 = (2, color, True, False, dimming)"
    by (simp_all add: str_nat_42)
  with list_of_two [OF b'(2)] have "b' = [(4, color, True, False, dimming), (2, color, True, False, dimming)]"
    by simp
  with b'(1) show ?thesis by simp
qed

theorem set_number_42_two_tubes_witness:
  "buffer_ok (init True 2) \<and> num_tubes (init True 2) = 2
   \<and> set_number 42 EASY_NIXIE_WHITE False 255 (init True 2)
     = Inr ((init True 2)\<lparr>display_buffer :=
         [(4, EASY_NIXIE_WHITE, True, False, 255), (2, EASY_NIXIE_WHITE, True, False, 255)]\<rparr>)"
proof -
  have a: "buffer_ok (init True 2)" by (simp add: init_buffer_ok)
  have b: "num_tubes (init True 2) = 2" by (simp add: init_def)
  from a b set_number_42_two_tubes [OF a b, of EASY_NIXIE_WHITE 255] show ?thesis by simp
qed

text \<open>
  C6.  When the number has more decimal digits than there are tubes, \<open>set_number\<close>
  returns without an exception and every tube holds a digit of the number: the tube at
  distance \<open>k\<close> from the last index holds the digit of weight \<open>10 ^ k\<close>.  So the buffer
  holds the last \<open>num_tubes\<close> digits, in order, and the digits of higher weight are in
  no tube.  With 137 on a fresh chain of two tubes the buffer holds 3 and 7.
\<close>

theorem set_number_drops_leading_digits:
  assumes "buffer_ok s" and "num_tubes s < int (length (num_str_of number))"
  shows "(\<exists>b'. set_number number color leading_zeros dimming s = Inr (s\<lparr>display_buffer := b'\<rparr>)
      \<and> length b' = nat (num_tubes s)
      \<and> (\<forall>p<nat (num_tubes s). b' ! p =
            (\<bar>number\<bar> div 10 ^ (nat (num_tubes s) - 1 - p) mod 10, color, True, False, dimming)))
    \<and> buffered_digits (set_number 137 EASY_NIXIE_WHITE False 255 (init True 2)) = [3, 7]"
proof -
  from set_number_buffer [OF assms(1), of number color leading_zeros dimming]
  obtain b' where b': "set_number number color leading_zeros dimming s = Inr (s\<lparr>display_buffer := b'\<rparr>)"
    "length b' = nat (num_tubes s)"
    "\<forall>p<nat (num_tubes s). b' ! p =
          (if nat (num_tubes s) - 1 - p < length (str_nat (nat \<bar>number\<bar>))
           then (\<bar>number\<bar> div 10 ^ (nat (num_tubes s) - 1 - p) mod 10, color, True, False, dimming)
           else (if leading_zeros then 0 else 10, color, True, False, dimming))"
    by auto
  have "nat (num_tubes s) - 1 - p < length (str_nat (nat \<bar>number\<bar>))" for p
    using assms(2) str_nat_length [of "nat \<bar>number\<bar>"] unfolding num_str_abs by arith
  with b'(3) have "\<forall>p<nat (num_tubes s). b' ! p =
            (\<bar>number\<bar> div 10 ^ (nat (num_tubes s) - 1 - p) mod 10, color, True, False, dimming)"
    by simp
  moreover have "buffered_digits (set_number 137 EASY_NIXIE_WHITE False 255 (init True 2)) = [3, 7]"
    by code_simp
  ultimately show ?thesis using b'(1,2) by blast
qed

theorem set_number_drops_leading_digits_witness:
  "buffer_ok (init True 2) \<and> num_tubes (init True 2) < int (length (num_str_of 137))
   \<and> set_number 137 EASY_NIXIE_WHITE False 255 (init True 2)
     = Inr ((init True 2)\<lparr>display_buffer :=
         [(3, EASY_NIXIE_WHITE, True, False, 255), (7, EASY_NIXIE_WHITE, True, False, 255)]\<rparr>)"
proof -
  have a: "buffer_ok (init True 2)" by (simp add: init_buffer_ok)
  have b: "num_tubes (init True 2) < int (length (num_str_of 137))"
    by (simp add: init_def num_str_abs str_nat_137)
  have n: "nat (num_tubes (init True 2)) = 2" by (simp add: init_def)
  from set_number_drops_leading_digits [OF a b, of EASY_NIXIE_WHITE False 255]
  obtain b' where b': "set_number 137 EASY_NIXIE_WHITE False 255 (init True 2)
        = Inr ((init True 2)\<lparr>display_buffer := b'\<rparr>)"
    "length b' = 2"
    "\<forall>p<2. b' ! p = (\<bar>137\<bar> div 10 ^ (2 - 1 - p) mod 10, EASY_NIXIE_WHITE, True, False, 255)"
    unfolding n by blast
  from b'(3) have "b' ! 0 = (3, EASY_NIXIE_WHITE, True, False, 255)"
    "b' ! 1 = (7, EASY_NIXIE_WHITE, True, False, 255)"
    by simp_all
  with list_of_two [OF b'(2)]
  have "b' = [(3, EASY_NIXIE_WHITE, True, False, 255), (7, EASY_NIXIE_WHITE, True, False, 255)]"
    by simp
  with a b b'(1) show ?thesis by simp
qed

text \<open>
  C9.  When the decimal string of the magnitude is at least as long as the chain,
  \<open>set_number\<close> gives the same result with and without leading zeros: the loop that
  writes them runs over an empty range.
\<close>

theorem leading_zeros_irrelevant:
  "num_tubes s \<le> int (length (num_str_of number)) \<Longrightarrow>
   set_number number color True dimming s = set_number number color False dimming s"
  by (simp add: set_number_def py_range_def Let_def split: sum.splits)

theorem leading_zeros_irrelevant_witness:
  "num_tubes (init True 2) \<le> int (length (num_str_of (-42)))
   \<and> set_number (-42) EASY_NIXIE_GREEN True 64 (init True 2)
     = set_number (-42) EASY_NIXIE_GREEN False 64 (init True 2)
   \<and> buffered_digits (set_number (-42) EASY_NIXIE_GREEN True 64 (init True 2)) = [4, 2]"
proof -
  have h: "num_tubes (init True 2) \<le> int (length (num_str_of (-42)))"
    by (simp add: init_def num_str_abs str_nat_42)
  have "buffered_digits (set_number (-42) EASY_NIXIE_GREEN False 64 (init True 2)) = [4, 2]"
    by code_simp
  with h leading_zeros_irrelevant [OF h, of EASY_NIXIE_GREEN 64] show ?thesis by simp
qed

section \<open>Properties of rendering\<close>

subsection \<open>What a render leaves behind\<close>

lemma shift_fold:
  "num_tubes (fold (shift_bit b) js s) = num_tubes s
   \<and> display_buffer (fold (shift_bit b) js s) = display_buffer s
   \<and> dimming_available (fold (shift_bit b) js s) = dimming_available s
   \<and> duty_cycle (fold (shift_bit b) js s) = duty_cycle s
   \<and> stcp (fold (shift_bit b) js s) = stcp s
   \<and> wire (fold (shift_bit b) js s)
       = wire s @ concat (map (\<lambda>i. [Dsin (b AND push_bit (7 - i) 1 \<noteq> 0),
                        Sleep 1, Shcp True, Sleep 1, Shcp False, Sleep 1]) js)"
  by (induction js arbitrary: s) (simp_all add: shift_bit_def Let_def)

lemma slow_shift_out_fields [simp]:
  "num_tubes (slow_shift_out b s) = num_tubes s"
  "display_buffer (slow_shift_out b s) = display_buffer s"
  "dimming_available (slow_shift_out b s) = dimming_available s"
  "duty_cycle (slow_shift_out b s) = duty_cycle s"
  "stcp (slow_shift_out b s) = stcp s"
  "wire (slow_shift_out b s) = wire s @ byte_events b"
  unfolding slow_shift_out_def byte_events_def using shift_fold [of b "[0..<8]" s] by simp_all

lemma set_dimming_no_pwm: "\<not> dimming_available s \<Longrightarrow> set_dimming f d s = Inr s"
  by (simp add: set_dimming_def)

lemma set_dimming_pwm:
  "dimming_available s \<Longrightarrow> duty_ok f d \<Longrightarrow>
   \<exists>v. f d = Inr v \<and> set_dimming f d s = Inr (s\<lparr>duty_cycle := v, wire := wire s @ [Duty v]\<rparr>)"
  by (auto simp add: set_dimming_def set_duty_cycle_def duty_ok_def split: sum.splits)

lemma set_dimming_fails:
  "dimming_available s \<Longrightarrow> \<not> duty_ok f d \<Longrightarrow> \<exists>e. set_dimming f d s = Inl e"
  by (auto simp add: set_dimming_def set_duty_cycle_def duty_ok_def split: sum.splits)

lemma send_tube_data_ok:
  assumes "0 \<le> n"
  shows "\<exists>s'. send_tube_data n c v k s = Inr s'
     \<and> num_tubes s' = num_tubes s
     \<and> display_buffer s' = display_buffer s
     \<and> dimming_available s' = dimming_available s
     \<and> duty_cycle s' = duty_cycle s
     \<and> wire s' = wire s @ tube_events f False (n, c, v, k, d)"
proof -
  define b where "b = (if n < 8 then push_bit (nat n) (1::int) else 0)"
  with assms have "first_shift_register_data n = Inr b"
    by (simp add: first_shift_register_data_def)
  then show ?thesis
    by (simp add: send_tube_data_def Let_def tube_events_def)
qed

lemma tube_events_pwm:
  "f d = Inr w \<Longrightarrow> tube_events f True (n, c, v, k, d) = Duty w # tube_events f False (n, c, v, k, d)"
  by (simp add: tube_events_def)

lemma render_tube_ok:
  assumes "i < length (display_buffer s)"
    and "renderable f (dimming_available s) (display_buffer s ! i)"
  shows "\<exists>s'. render_tube f (int i) s = Inr s'
     \<and> num_tubes s' = num_tubes s
     \<and> display_buffer s' = display_buffer s
     \<and> dimming_available s' = dimming_available s
     \<and> (if dimming_available s then f (dimming_of (display_buffer s ! i)) = Inr (duty_cycle s')
         else duty_cycle s' = duty_cycle s)
     \<and> wire s' = wire s @ tube_events f (dimming_available s) (display_buffer s ! i)"
proof -
  obtain n c v k d where t: "display_buffer s ! i = (n, c, v, k, d)"
    by (cases "display_buffer s ! i") auto
  with assms(2) have n: "0 \<le> n" and d: "dimming_available s \<longrightarrow> duty_ok f d"
    by (simp_all add: renderable_def dimming_of_def)
  have get: "getitem (display_buffer s) (int i) = Inr (n, c, v, k, d)"
    using assms(1) t by (simp add: getitem_in)
  show ?thesis
  proof (cases "dimming_available s")
    case False
    from send_tube_data_ok [OF n, of c v k s f d] False get t show ?thesis
      by (auto simp add: render_tube_def set_dimming_no_pwm)
  next
    case True
    with d set_dimming_pwm [of s f d]
    obtain w where w: "f d = Inr w"
      "set_dimming f d s = Inr (s\<lparr>duty_cycle := w, wire := wire s @ [Duty w]\<rparr>)"
      by blast
    from send_tube_data_ok [OF n, of c v k "s\<lparr>duty_cycle := w, wire := wire s @ [Duty w]\<rparr>" f d]
      True get t w
    show ?thesis
      by (auto simp add: render_tube_def tube_events_pwm dimming_of_def)
  qed
qed

lemma render_tube_fails:
  assumes "i < length (display_buffer s)"
    and "\<not> renderable f (dimming_available s) (display_buffer s ! i)"
  shows "\<exists>e. render_tube f (int i) s = Inl e"
proof -
  obtain n c v k d where t: "display_buffer s ! i = (n, c, v, k, d)"
    by (cases "display_buffer s ! i") auto
  have get: "getitem (display_buffer s) (int i) = Inr (n, c, v, k, d)"
    using assms(1) t by (simp add: getitem_in)
  show ?thesis
  proof (cases "set_dimming f d s")
    case (Inl e)
    with get show ?thesis by (simp add: render_tube_def)
  next
    case (Inr s1)
    then have "dimming_available s \<longrightarrow> duty_ok f d"
      using set_dimming_fails [of s f d] by auto
    with assms(2) t have "n < 0"
      by (simp add: renderable_def dimming_of_def)
    with get Inr show ?thesis
      by (simp add: render_tube_def send_tube_data_negative)
  qed
qed

lemma render_tube_negative:
  assumes "i < length (display_buffer s)"
    and "dimming_available s \<longrightarrow> duty_ok f (dimming_of (display_buffer s ! i))"
    and "fst (display_buffer s ! i) < 0"
  shows "render_tube f (int i) s = Inl ValueError"
proof -
  obtain n c v k d where t: "display_buffer s ! i = (n, c, v, k, d)"
    by (cases "display_buffer s ! i") auto
  have get: "getitem (display_buffer s) (int i) = Inr (n, c, v, k, d)"
    using assms(1) t by (simp add: getitem_in)
  from assms(3) t have n: "n < 0" by simp
  from assms(2) t have "\<exists>s1. set_dimming f d s = Inr s1"
    using set_dimming_no_pwm [of s f d] set_dimming_pwm [of s f d]
    by (cases "dimming_available s") (auto simp add: dimming_of_def)
  with get n show ?thesis
    by (auto simp add: render_tube_def send_tube_data_negative)
qed

lemma render_loop_ok:
  assumes "\<forall>i\<in>set js. i < length (display_buffer s)
             \<and> renderable f (dimming_available s) (display_buffer s ! i)"
  shows "\<exists>s'. for_each (render_tube f) (map int js) s = Inr s'
     \<and> num_tubes s' = num_tubes s
     \<and> display_buffer s' = display_buffer s
     \<and> dimming_available s' = dimming_available s
     \<and> (if dimming_available s \<and> js \<noteq> []
         then f (dimming_of (display_buffer s ! last js)) = Inr (duty_cycle s')
         else duty_cycle s' = duty_cycle s)
     \<and> wire s' = wire s @ concat (map (\<lambda>i. tube_events f (dimming_available s) (display_buffer s ! i)) js)"
  using assms
proof (induction js arbitrary: s)
  case Nil
  then show ?case by simp
next
  case (Cons j js)
  from Cons.prems have j: "j < length (display_buffer s)"
    "renderable f (dimming_available s) (display_buffer s ! j)"
    by simp_all
  from render_tube_ok [OF j]
  obtain s1 where s1: "render_tube f (int j) s = Inr s1"
    "num_tubes s1 = num_tubes s"
    "display_buffer s1 = display_buffer s"
    "dimming_available s1 = dimming_available s"
    "if dimming_available s then f (dimming_of (display_buffer s ! j)) = Inr (duty_cycle s1)
         else duty_cycle s1 = duty_cycle s"
    "wire s1 = wire s @ tube_events f (dimming_available s) (display_buffer s ! j)"
    by blast
  have "\<forall>i\<in>set js. i < length (display_buffer s1)
             \<and> renderable f (dimming_available s1) (display_buffer s1 ! i)"
    using Cons.prems s1(3,4) by simp
  from Cons.IH [OF this]
  obtain s' where s': "for_each (render_tube f) (map int js) s1 = Inr s'"
    "num_tubes s' = num_tubes s1"
    "display_buffer s' = display_buffer s1"
    "dimming_available s' = dimming_available s1"
    "if dimming_available s1 \<and> js \<noteq> []
         then f (dimming_of (display_buffer s1 ! last js)) = Inr (duty_cycle s')
         else duty_cycle s' = duty_cycle s1"
    "wire s' = wire s1 @ concat (map (\<lambda>i. tube_events f (dimming_available s1) (display_buffer s1 ! i)) js)"
    by blast
  show ?case
    using s1 s' by (auto split: if_splits)
qed

lemma render_loop_fails:
  assumes "\<forall>i\<in>set js. i < length (display_buffer s)"
    and "\<exists>i\<in>set js. \<not> renderable f (dimming_available s) (display_buffer s ! i)"
  shows "\<exists>e. for_each (render_tube f) (map int js) s = Inl e"
  using assms
proof (induction js arbitrary: s)
  case Nil
  then show ?case by simp
next
  case (Cons j js)
  from Cons.prems(1) have j: "j < length (display_buffer s)" by simp
  show ?case
  proof (cases "renderable f (dimming_available s) (display_buffer s ! j)")
    case False
    from render_tube_fails [OF j False] show ?thesis by auto
  next
    case True
    from render_tube_ok [OF j True]
    obtain s1 where s1: "render_tube f (int j) s = Inr s1" "display_buffer s1 = display_buffer s"
      "dimming_available s1 = dimming_available s"
      by blast
    from Cons.prems True
    have "\<exists>i\<in>set js. \<not> renderable f (dimming_available s) (display_buffer s ! i)" by auto
    with Cons.IH [of s1] Cons.prems(1) s1(2,3)
    have "\<exists>e. for_each (render_tube f) (map int js) s1 = Inl e" by simp
    with s1(1) show ?thesis by simp
  qed
qed

lemma render_loop_negative:
  assumes "\<forall>i\<in>set js. i < length (display_buffer s)
             \<and> (dimming_available s \<longrightarrow> duty_ok f (dimming_of (display_buffer s ! i)))"
    and "\<exists>i\<in>set js. fst (display_buffer s ! i) < 0"
  shows "for_each (render_tube f) (map int js) s = Inl ValueError"
  using assms
proof (induction js arbitrary: s)
  case Nil
  then show ?case by simp
next
  case (Cons j js)
  from Cons.prems(1) have j: "j < length (display_buffer s)"
    "dimming_available s \<longrightarrow> duty_ok f (dimming_of (display_buffer s ! j))" by simp_all
  show ?case
  proof (cases "fst (display_buffer s ! j) < 0")
    case True
    with j show ?thesis by (simp add: render_tube_negative)
  next
    case False
    with j(2) have "renderable f (dimming_available s) (display_buffer s ! j)"
      by (simp add: renderable_def)
    from render_tube_ok [OF j(1) this]
    obtain s1 where s1: "render_tube f (int j) s = Inr s1" "display_buffer s1 = display_buffer s"
      "dimming_available s1 = dimming_available s"
      by blast
    from Cons.prems False have "\<exists>i\<in>set js. fst (display_buffer s ! i) < 0" by auto
    with Cons.IH [of s1] Cons.prems(1) s1(2,3)
    have "for_each (render_tube f) (map int js) s1 = Inl ValueError" by simp
    with s1(1) show ?thesis by simp
  qed
qed

lemma rev_py_range: "rev (py_range n) = map int (rev [0..<nat n])"
  by (simp add: py_range_def rev_map)

lemma update_display_ok:
  assumes "buffer_ok s" and "\<forall>t\<in>set (display_buffer s). renderable f (dimming_available s) t"
  shows "\<exists>s'. update_display f s = Inr s'
     \<and> num_tubes s' = num_tubes s
     \<and> display_buffer s' = display_buffer s
     \<and> dimming_available s' = dimming_available s
     \<and> (if dimming_available s \<and> 0 < num_tubes s
         then f (dimming_of (display_buffer s ! 0)) = Inr (duty_cycle s')
         else duty_cycle s' = duty_cycle s)
     \<and> wire s' = wire s
          @ concat (map (\<lambda>i. tube_events f (dimming_available s) (display_buffer s ! i))
                        (rev [0..<nat (num_tubes s)]))
          @ [Stcp False, Sleep 1000, Stcp True]"
proof -
  let ?js = "rev [0..<nat (num_tubes s)]"
  have len: "length (display_buffer s) = nat (num_tubes s)"
    using assms(1) by (simp add: buffer_ok_def)
  have "\<forall>i\<in>set ?js. i < length (display_buffer s)
          \<and> renderable f (dimming_available s) (display_buffer s ! i)"
    using assms(2) len by simp
  from render_loop_ok [OF this]
  obtain s1 where s1: "for_each (render_tube f) (map int ?js) s = Inr s1"
    "num_tubes s1 = num_tubes s"
    "display_buffer s1 = display_buffer s"
    "dimming_available s1 = dimming_available s"
    "if dimming_available s \<and> ?js \<noteq> []
         then f (dimming_of (display_buffer s ! last ?js)) = Inr (duty_cycle s1)
         else duty_cycle s1 = duty_cycle s"
    "wire s1 = wire s @ concat (map (\<lambda>i. tube_events f (dimming_available s) (display_buffer s ! i)) ?js)"
    by blast
  have l: "?js \<noteq> [] \<longleftrightarrow> 0 < num_tubes s" by auto
  have "last ?js = 0" if "0 < num_tubes s"
    using that by (simp add: last_rev hd_upt)
  with s1 l show ?thesis
    by (auto simp add: update_display_def rev_py_range latch_def split: if_splits)
qed

lemma update_display_fails:
  assumes "buffer_ok s" and "\<exists>t\<in>set (display_buffer s). \<not> renderable f (dimming_available s) t"
  shows "\<exists>e. update_display f s = Inl e"
proof -
  let ?js = "rev [0..<nat (num_tubes s)]"
  have len: "length (display_buffer s) = nat (num_tubes s)"
    using assms(1) by (simp add: buffer_ok_def)
  have "\<forall>i\<in>set ?js. i < length (display_buffer s)"
    using len by simp
  moreover have "\<exists>i\<in>set ?js. \<not> renderable f (dimming_available s) (display_buffer s ! i)"
  proof -
    from assms(2) obtain i where "i < length (display_buffer s)"
      "\<not> renderable f (dimming_available s) (display_buffer s ! i)"
      by (auto simp add: in_set_conv_nth)
    with len show ?thesis by (intro bexI [of _ i]) simp_all
  qed
  ultimately have "\<exists>e. for_each (render_tube f) (map int ?js) s = Inl e"
    by (rule render_loop_fails)
  then show ?thesis
    by (auto simp add: update_display_def rev_py_range)
qed

lemma update_display_negative:
  assumes "buffer_ok s"
    and "dimming_available s \<longrightarrow> (\<forall>t\<in>set (display_buffer s). duty_ok f (dimming_of t))"
    and "\<exists>t\<in>set (display_buffer s). fst t < 0"
  shows "update_display f s = Inl ValueError"
proof -
  let ?js = "rev [0..<nat (num_tubes s)]"
  have len: "length (display_buffer s) = nat (num_tubes s)"
    using assms(1) by (simp add: buffer_ok_def)
  have "\<forall>i\<in>set ?js. i < length (display_buffer s)
          \<and> (dimming_available s \<longrightarrow> duty_ok f (dimming_of (display_buffer s ! i)))"
    using len assms(2) by simp
  moreover have "\<exists>i\<in>set ?js. fst (display_buffer s ! i) < 0"
  proof -
    from assms(3) obtain i where "i < length (display_buffer s)" "fst (display_buffer s ! i) < 0"
      by (auto simp add: in_set_conv_nth)
    with len show ?thesis by (intro bexI [of _ i]) simp_all
  qed
  ultimately have "for_each (render_tube f) (map int ?js) s = Inl ValueError"
    by (rule render_loop_negative)
  then show ?thesis
    by (simp add: update_display_def rev_py_range)
qed

lemma update_display_returns_iff:
  assumes "buffer_ok s"
  shows "(\<exists>s'. update_display f s = Inr s')
     \<longleftrightarrow> (\<forall>t\<in>set (display_buffer s). renderable f (dimming_available s) t)"
proof
  assume "\<exists>s'. update_display f s = Inr s'"
  then show "\<forall>t\<in>set (display_buffer s). renderable f (dimming_available s) t"
    using update_display_fails [OF assms, of f] by force
next
  assume "\<forall>t\<in>set (display_buffer s). renderable f (dimming_available s) t"
  with update_display_ok [OF assms, of f] show "\<exists>s'. update_display f s = Inr s'" by blast
qed

lemma byte_events_no_latch: "Stcp b \<notin> set (byte_events x)"
  by (auto simp add: byte_events_def)
lemma byte_events_no_enable: "Duty d \<notin> set (byte_events x) \<and> OutEn b \<notin> set (byte_events x)"
  by (auto simp add: byte_events_def)
lemma duty_events_no_latch: "Stcp b \<notin> set (case f d of Inl e \<Rightarrow> [] | Inr duty \<Rightarrow> [Duty duty])"
  by (cases "f d") simp_all
lemma digit_events_no_latch: "Stcp b \<notin> set (case first_shift_register_data n of Inl e \<Rightarrow> [] | Inr x \<Rightarrow> byte_events x)"
  by (cases "first_shift_register_data n") (simp_all add: byte_events_no_latch)
lemma tube_events_no_latch: "Stcp b \<notin> set (tube_events f pwm t)"
proof -
  obtain n c v k d where t: "t = (n, c, v, k, d)" by (cases t) auto
  show ?thesis
  proof (cases pwm)
    case True
    then show ?thesis unfolding t tube_events_def
      using duty_events_no_latch [of b f d] digit_events_no_latch [of b n] byte_events_no_latch [of b] by simp
  next
    case False
    then show ?thesis unfolding t tube_events_def
      using digit_events_no_latch [of b n] byte_events_no_latch [of b] by simp
  qed
qed
lemma digit_events_no_enable: "Duty d \<notin> set (case first_shift_register_data n of Inl e \<Rightarrow> [] | Inr x \<Rightarrow> byte_events x)
  \<and> OutEn b \<notin> set (case first_shift_register_data n of Inl e \<Rightarrow> [] | Inr x \<Rightarrow> byte_events x)"
  by (cases "first_shift_register_data n") (simp_all add: byte_events_no_enable)
lemma tube_events_no_enable:
  "Duty d \<notin> set (tube_events f False t) \<and> OutEn b \<notin> set (tube_events f False t)"
proof -
  obtain n c v k x where t: "t = (n, c, v, k, x)" by (cases t) auto
  show ?thesis unfolding t tube_events_def
    using digit_events_no_enable [of d n b] byte_events_no_enable by simp
qed

subsection \<open>The buffer keeps its length\<close>

lemma set_tube_buffer_ok:
  assumes "buffer_ok s" and "set_tube i number color voltage comma dimming s = Inr s'"
  shows "buffer_ok s'"
  using assms
  by (auto simp add: set_tube_def setitem_def buffer_ok_def split: if_splits sum.splits)

lemma set_number_buffer_ok:
  assumes "buffer_ok s" and "set_number number color leading_zeros dimming s = Inr s'"
  shows "buffer_ok s'"
proof -
  from set_number_buffer [OF assms(1), of number color leading_zeros dimming] assms(2)
  obtain b' where "s' = s\<lparr>display_buffer := b'\<rparr>" "length b' = nat (num_tubes s)"
    by auto
  with assms(1) show ?thesis by (simp add: buffer_ok_def)
qed

lemma update_display_buffer_ok:
  assumes "buffer_ok s" and "update_display f s = Inr s'"
  shows "buffer_ok s'"
proof -
  from assms have "\<forall>t\<in>set (display_buffer s). renderable f (dimming_available s) t"
    using update_display_returns_iff [of s f] by blast
  from update_display_ok [OF assms(1) this] assms show ?thesis
    by (auto simp add: buffer_ok_def)
qed

subsection \<open>When rendering raises\<close>

text \<open>
  C8.  Sending one tube returns exactly when its digit is not negative; for a negative
  digit it is the digit byte, \<open>1 << number\<close>, that raises.  \<open>set_tube\<close> stores the digit
  it is given without looking at it.  On a buffer with one entry per tube,
  \<open>update_display\<close> raises when some buffered digit is negative, and what it raises is
  the \<open>ValueError\<close> of the digit byte unless the brightness step of a tube raises.  When
  no buffered digit is negative, nothing but the brightness step can raise: the call
  returns exactly when there is no PWM or every buffered brightness can be set.
\<close>

theorem encoding_total_iff_digit_nonnegative:
  "((\<exists>s'. send_tube_data number color voltage comma s = Inr s') \<longleftrightarrow> 0 \<le> number)
   \<and> (number < 0 \<longrightarrow> first_shift_register_data number = Inl ValueError)
   \<and> (buffer_ok s \<and> 0 \<le> i \<and> i < num_tubes s \<longrightarrow>
        set_tube i number color voltage comma dimming s
          = Inr (s\<lparr>display_buffer :=
                   (display_buffer s)[nat i := (number, color, voltage, comma, dimming)]\<rparr>))
   \<and> (buffer_ok s \<and> (\<exists>t\<in>set (display_buffer s). fst t < 0) \<longrightarrow>
        (\<exists>e. update_display to_duty s = Inl e))
   \<and> (buffer_ok s \<and> (\<exists>t\<in>set (display_buffer s). fst t < 0)
        \<and> (dimming_available s \<longrightarrow>
              (\<forall>t\<in>set (display_buffer s). duty_ok to_duty (dimming_of t))) \<longrightarrow>
        update_display to_duty s = Inl ValueError)
   \<and> (buffer_ok s \<and> (\<forall>t\<in>set (display_buffer s). 0 \<le> fst t) \<longrightarrow>
        ((\<exists>s'. update_display to_duty s = Inr s')
          \<longleftrightarrow> (dimming_available s \<longrightarrow>
                (\<forall>t\<in>set (display_buffer s). duty_ok to_duty (dimming_of t)))))"
proof -
  have 1: "(\<exists>s'. send_tube_data number color voltage comma s = Inr s') \<longleftrightarrow> 0 \<le> number"
    using send_tube_data_fails_iff [of number color voltage comma s]
    by (cases "send_tube_data number color voltage comma s") auto
  have 4: "buffer_ok s \<and> (\<exists>t\<in>set (display_buffer s). fst t < 0) \<longrightarrow>
        (\<exists>e. update_display to_duty s = Inl e)"
  proof
    assume h: "buffer_ok s \<and> (\<exists>t\<in>set (display_buffer s). fst t < 0)"
    then obtain t where "t \<in> set (display_buffer s)" "fst t < 0" by blast
    then have "\<exists>t\<in>set (display_buffer s). \<not> renderable to_duty (dimming_available s) t"
      by (intro bexI [of _ t]) (simp_all add: renderable_def)
    with h show "\<exists>e. update_display to_duty s = Inl e"
      using update_display_fails [of s to_duty] by blast
  qed
  have 6: "buffer_ok s \<and> (\<forall>t\<in>set (display_buffer s). 0 \<le> fst t) \<longrightarrow>
        ((\<exists>s'. update_display to_duty s = Inr s')
          \<longleftrightarrow> (dimming_available s \<longrightarrow>
                (\<forall>t\<in>set (display_buffer s). duty_ok to_duty (dimming_of t))))"
    using update_display_returns_iff [of s to_duty] by (auto simp add: renderable_def)
  from 1 4 6 show ?thesis
    by (simp add: digit_byte_negative set_tube_in_range update_display_negative)
qed

lemma duty_ok_257: "duty_ok duty_257 d \<longleftrightarrow> 0 \<le> d \<and> d \<le> 255"
  by (auto simp add: duty_ok_def duty_257_def)

theorem encoding_total_iff_digit_nonnegative_witness:
  "buffer_ok (init True 1)
   \<and> set_tube 0 (-1) EASY_NIXIE_WHITE True False 255 (init True 1)
       = Inr ((init True 1)\<lparr>display_buffer := [(-1, EASY_NIXIE_WHITE, True, False, 255)]\<rparr>)
   \<and> update_display duty_257
        ((init True 1)\<lparr>display_buffer := [(-1, EASY_NIXIE_WHITE, True, False, 255)]\<rparr>)
       = Inl ValueError
   \<and> (\<exists>s'. update_display duty_257 (init True 1) = Inr s')
   \<and> \<not> (\<exists>s'. update_display duty_257
        ((init True 1)\<lparr>display_buffer := [(3, EASY_NIXIE_WHITE, True, False, 256)]\<rparr>) = Inr s')"
proof -
  let ?s0 = "init True 1"
  let ?s1 = "?s0\<lparr>display_buffer := [(-1, EASY_NIXIE_WHITE, True, False, 255)]\<rparr>"
  let ?s2 = "?s0\<lparr>display_buffer := [(3, EASY_NIXIE_WHITE, True, False, 256)]\<rparr>"
  have ok0: "buffer_ok ?s0" by (simp add: init_buffer_ok)
  have ok1: "buffer_ok ?s1" by (simp add: buffer_ok_def init_def)
  have ok2: "buffer_ok ?s2" by (simp add: buffer_ok_def init_def)
  have idx: "(0::int) \<le> 0 \<and> 0 < num_tubes ?s0" by (simp add: init_def)
  have neg: "\<exists>t\<in>set (display_buffer ?s1). fst t < 0" by simp
  have d1: "dimming_available ?s1 \<longrightarrow> (\<forall>t\<in>set (display_buffer ?s1). duty_ok duty_257 (dimming_of t))"
    by (simp add: duty_ok_257 dimming_of_def)
  have pos0: "\<forall>t\<in>set (display_buffer ?s0). 0 \<le> fst t" by (simp add: init_def)
  have d0: "dimming_available ?s0 \<longrightarrow> (\<forall>t\<in>set (display_buffer ?s0). duty_ok duty_257 (dimming_of t))"
    by (simp add: init_def duty_ok_257 dimming_of_def)
  have pos2: "\<forall>t\<in>set (display_buffer ?s2). 0 \<le> fst t" by simp
  have d2: "\<not> (dimming_available ?s2 \<longrightarrow> (\<forall>t\<in>set (display_buffer ?s2). duty_ok duty_257 (dimming_of t)))"
    by (simp add: init_def duty_ok_257 dimming_of_def)
  have "set_tube 0 (-1) EASY_NIXIE_WHITE True False 255 ?s0
          = Inr (?s0\<lparr>display_buffer :=
                   (display_buffer ?s0)[nat 0 := (-1, EASY_NIXIE_WHITE, True, False, 255)]\<rparr>)"
    using encoding_total_iff_digit_nonnegative [of "-1" EASY_NIXIE_WHITE True False ?s0 0 255 duty_257]
      ok0 idx by blast
  then have a: "set_tube 0 (-1) EASY_NIXIE_WHITE True False 255 ?s0 = Inr ?s1"
    by (simp add: init_def)
  have b: "update_display duty_257 ?s1 = Inl ValueError"
    using encoding_total_iff_digit_nonnegative [of "-1" EASY_NIXIE_WHITE True False ?s1 0 255 duty_257]
      ok1 neg d1 by blast
  have c: "\<exists>s'. update_display duty_257 ?s0 = Inr s'"
    using encoding_total_iff_digit_nonnegative [of "-1" EASY_NIXIE_WHITE True False ?s0 0 255 duty_257]
      ok0 pos0 d0 by blast
  have d: "\<not> (\<exists>s'. update_display duty_257 ?s2 = Inr s')"
    using encoding_total_iff_digit_nonnegative [of "-1" EASY_NIXIE_WHITE True False ?s2 0 255 duty_257]
      ok2 pos2 d2 by blast
  from ok0 a b c d show ?thesis by simp
qed

subsection \<open>The shared duty cycle\<close>

text \<open>
  C2.  With PWM and at least one tube, whenever \<open>update_display\<close> returns, the duty
  cycle left in the PWM output is the one computed from the brightness stored at
  index 0, the last tube of the loop.  It returns exactly when no buffered digit is
  negative and every buffered brightness can be set.  Hence two buffers of the same
  length with the same brightness at index 0 leave the same duty cycle when both
  renders return, whatever the brightness of the other tubes.
\<close>

theorem update_display_duty_cycle:
  assumes "buffer_ok s" and "dimming_available s" and "0 < num_tubes s"
  shows "(\<forall>s'. update_display to_duty s = Inr s' \<longrightarrow>
            to_duty (dimming_of (display_buffer s ! 0)) = Inr (duty_cycle s'))
    \<and> ((\<exists>s'. update_display to_duty s = Inr s')
          \<longleftrightarrow> (\<forall>t\<in>set (display_buffer s). 0 \<le> fst t \<and> duty_ok to_duty (dimming_of t)))
    \<and> (\<forall>b2 s' s2. length b2 = length (display_buffer s)
          \<and> dimming_of (b2 ! 0) = dimming_of (display_buffer s ! 0)
          \<and> update_display to_duty s = Inr s'
          \<and> update_display to_duty (s\<lparr>display_buffer := b2\<rparr>) = Inr s2
          \<longrightarrow> duty_cycle s2 = duty_cycle s')"
proof -
  have duty: "to_duty (dimming_of (display_buffer x ! 0)) = Inr (duty_cycle s')"
    if "buffer_ok x" "dimming_available x" "0 < num_tubes x" "update_display to_duty x = Inr s'"
    for x s'
  proof -
    from that(1,4) have "\<forall>t\<in>set (display_buffer x). renderable to_duty (dimming_available x) t"
      using update_display_returns_iff [of x to_duty] by blast
    from update_display_ok [OF that(1) this] that(2,3,4) show ?thesis
      by auto
  qed
  have 1: "\<forall>s'. update_display to_duty s = Inr s' \<longrightarrow>
            to_duty (dimming_of (display_buffer s ! 0)) = Inr (duty_cycle s')"
    using duty [OF assms] by blast
  have 2: "(\<exists>s'. update_display to_duty s = Inr s')
          \<longleftrightarrow> (\<forall>t\<in>set (display_buffer s). 0 \<le> fst t \<and> duty_ok to_duty (dimming_of t))"
    using update_display_returns_iff [OF assms(1), of to_duty] assms(2)
    by (simp add: renderable_def)
  have 3: "duty_cycle s2 = duty_cycle s'"
    if "length b2 = length (display_buffer s)"
      "dimming_of (b2 ! 0) = dimming_of (display_buffer s ! 0)"
      "update_display to_duty s = Inr s'"
      "update_display to_duty (s\<lparr>display_buffer := b2\<rparr>) = Inr s2"
    for b2 s' s2
  proof -
    let ?x = "s\<lparr>display_buffer := b2\<rparr>"
    have "buffer_ok ?x" "dimming_available ?x" "0 < num_tubes ?x"
      using assms that(1) by (simp_all add: buffer_ok_def)
    from duty [OF this that(4)] that(2)
    have "to_duty (dimming_of (display_buffer s ! 0)) = Inr (duty_cycle s2)"
      by simp
    with duty [OF assms that(3)] show ?thesis by simp
  qed
  from 1 2 3 show ?thesis by blast
qed

subsection \<open>Order on the wire\<close>

text \<open>
  C4, as the claim states it, on a fresh chain of one tube with PWM: the render writes
  the duty cycle 0 in place of 65535 ahead of the rising edge of the latch line, so the
  brightness of the display changes before the latch pulse, not only at it.
\<close>

theorem update_display_brightness_before_latch_counterexample:
  "duty_cycle (init True 1) = 65535
   \<and> Duty 0 \<in> set (before_latch (rendered_events (init True 1)
                                     (update_display duty_257 (init True 1))))"
  by code_simp

text \<open>
  C4, amended.  Whenever \<open>update_display\<close> returns, what it has added to the wire is,
  for each index from \<open>num_tubes - 1\<close> down to 0, the events of that tube, followed by
  the events of one latch pulse.  The events of a tube never touch the latch line, so
  the only latch pulse is the last thing on the wire and the shifted bytes reach the
  tubes at that point only.  With PWM the events of a tube are the write of its duty
  cycle followed by what they are without PWM: the control byte, then the digit byte,
  with no write to the enable line.  The call returns exactly when every buffered tube
  has a digit that is not negative and, with PWM, a brightness that can be set.
\<close>

theorem update_display_order_and_latch:
  assumes "buffer_ok s"
  shows "(\<forall>s'. update_display to_duty s = Inr s' \<longrightarrow>
            wire s' = wire s
              @ concat (map (\<lambda>i. tube_events to_duty (dimming_available s) (display_buffer s ! i))
                            (rev [0..<nat (num_tubes s)]))
              @ [Stcp False, Sleep 1000, Stcp True])
    \<and> (\<forall>t b. Stcp b \<notin> set (tube_events to_duty (dimming_available s) t))
    \<and> (\<forall>n c v k d w. to_duty d = Inr w \<longrightarrow>
          tube_events to_duty True (n, c, v, k, d) = Duty w # tube_events to_duty False (n, c, v, k, d))
    \<and> (\<forall>n c v k d x. first_shift_register_data n = Inr x \<longrightarrow>
          tube_events to_duty False (n, c, v, k, d)
            = byte_events (second_shift_register_data n c v k) @ byte_events x)
    \<and> (\<forall>t d b. Duty d \<notin> set (tube_events to_duty False t)
                \<and> OutEn b \<notin> set (tube_events to_duty False t))
    \<and> ((\<exists>s'. update_display to_duty s = Inr s')
          \<longleftrightarrow> (\<forall>t\<in>set (display_buffer s). renderable to_duty (dimming_available s) t))"
proof -
  have 1: "wire s' = wire s
              @ concat (map (\<lambda>i. tube_events to_duty (dimming_available s) (display_buffer s ! i))
                            (rev [0..<nat (num_tubes s)]))
              @ [Stcp False, Sleep 1000, Stcp True]"
    if "update_display to_duty s = Inr s'" for s'
  proof -
    from that have "\<forall>t\<in>set (display_buffer s). renderable to_duty (dimming_available s) t"
      using update_display_returns_iff [OF assms, of to_duty] by blast
    from update_display_ok [OF assms this] that show ?thesis by auto
  qed
  have 4: "tube_events to_duty False (n, c, v, k, d)
            = byte_events (second_shift_register_data n c v k) @ byte_events x"
    if "first_shift_register_data n = Inr x" for n c v k d x
    using that by (simp add: tube_events_def)
  have c1: "\<forall>s'. update_display to_duty s = Inr s' \<longrightarrow>
            wire s' = wire s
              @ concat (map (\<lambda>i. tube_events to_duty (dimming_available s) (display_buffer s ! i))
                            (rev [0..<nat (num_tubes s)]))
              @ [Stcp False, Sleep 1000, Stcp True]"
    using 1 by blast
  have c2: "\<forall>t b. Stcp b \<notin> set (tube_events to_duty (dimming_available s) t)"
    by (simp add: tube_events_no_latch)
  have c3: "\<forall>n c v k d w. to_duty d = Inr w \<longrightarrow>
          tube_events to_duty True (n, c, v, k, d) = Duty w # tube_events to_duty False (n, c, v, k, d)"
    by (simp add: tube_events_pwm)
  have c4: "\<forall>n c v k d x. first_shift_register_data n = Inr x \<longrightarrow>
          tube_events to_duty False (n, c, v, k, d)
            = byte_events (second_shift_register_data n c v k) @ byte_events x"
    using 4 by blast
  have c5: "\<forall>t d b. Duty d \<notin> set (tube_events to_duty False t)
                \<and> OutEn b \<notin> set (tube_events to_duty False t)"
    by (simp add: tube_events_no_enable)
  note c6 = update_display_returns_iff [OF assms, of to_duty]
  show ?thesis
    by (intro conjI) (rule c1 c2 c3 c4 c5 c6)+
qed

lemma rev_upt_2: "rev [0..<2] = [1, 0]"
  by (simp add: numeral_2_eq_2)

theorem update_display_duty_cycle_witness:
  "buffer_ok ((init True 2)\<lparr>display_buffer :=
       [(1, EASY_NIXIE_WHITE, True, False, 128), (2, EASY_NIXIE_RED, True, False, 64)]\<rparr>)
   \<and> dimming_available (init True 2) \<and> 0 < num_tubes (init True 2)
   \<and> (\<exists>s'. update_display duty_257 ((init True 2)\<lparr>display_buffer :=
       [(1, EASY_NIXIE_WHITE, True, False, 128), (2, EASY_NIXIE_RED, True, False, 64)]\<rparr>) = Inr s'
         \<and> duty_cycle s' = 32896)"
proof -
  let ?s = "(init True 2)\<lparr>display_buffer :=
       [(1, EASY_NIXIE_WHITE, True, False, 128), (2, EASY_NIXIE_RED, True, False, 64)]\<rparr>"
  have ok: "buffer_ok ?s" by (simp add: buffer_ok_def init_def)
  have pwm: "dimming_available ?s" by (simp add: init_def)
  have n: "0 < num_tubes ?s" by (simp add: init_def)
  have good: "\<forall>t\<in>set (display_buffer ?s). 0 \<le> fst t \<and> duty_ok duty_257 (dimming_of t)"
    by (simp add: duty_ok_257 dimming_of_def)
  note t = update_display_duty_cycle [OF ok pwm n, of duty_257]
  from t good obtain s' where s': "update_display duty_257 ?s = Inr s'" by blast
  with t have "duty_257 (dimming_of (display_buffer ?s ! 0)) = Inr (duty_cycle s')" by blast
  then have "duty_cycle s' = 32896" by (simp add: dimming_of_def duty_257_def)
  with s' ok pwm n show ?thesis by auto
qed

theorem update_display_order_and_latch_witness:
  "buffer_ok ((init True 2)\<lparr>display_buffer :=
       [(1, EASY_NIXIE_WHITE, True, False, 128), (2, EASY_NIXIE_RED, True, False, 64)]\<rparr>)
   \<and> (\<exists>s'. update_display duty_257 ((init True 2)\<lparr>display_buffer :=
       [(1, EASY_NIXIE_WHITE, True, False, 128), (2, EASY_NIXIE_RED, True, False, 64)]\<rparr>) = Inr s'
         \<and> wire s' = wire (init True 2)
              @ tube_events duty_257 True (2, EASY_NIXIE_RED, True, False, 64)
              @ tube_events duty_257 True (1, EASY_NIXIE_WHITE, True, False, 128)
              @ [Stcp False, Sleep 1000, Stcp True])
   \<and> tube_events duty_257 True (2, EASY_NIXIE_RED, True, False, 64)
        = Duty 16448 # byte_events 0b00101100 @ byte_events 0b00000100"
proof -
  let ?s = "(init True 2)\<lparr>display_buffer :=
       [(1, EASY_NIXIE_WHITE, True, False, 128), (2, EASY_NIXIE_RED, True, False, 64)]\<rparr>"
  have ok: "buffer_ok ?s" by (simp add: buffer_ok_def init_def)
  have n: "nat (num_tubes ?s) = 2" by (simp add: init_def)
  have pwm: "dimming_available (init True 2)" by (simp add: init_def)
  have good: "\<forall>t\<in>set (display_buffer ?s). renderable duty_257 (dimming_available ?s) t"
    by (simp add: renderable_def duty_ok_257 dimming_of_def)
  note t = update_display_order_and_latch [OF ok, of duty_257]
  from t good obtain s' where s': "update_display duty_257 ?s = Inr s'" by blast
  with t have "wire s' = wire ?s
              @ concat (map (\<lambda>i. tube_events duty_257 (dimming_available ?s) (display_buffer ?s ! i))
                            (rev [0..<nat (num_tubes ?s)]))
              @ [Stcp False, Sleep 1000, Stcp True]" by blast
  then have w: "wire s' = wire (init True 2)
              @ tube_events duty_257 True (2, EASY_NIXIE_RED, True, False, 64)
              @ tube_events duty_257 True (1, EASY_NIXIE_WHITE, True, False, 128)
              @ [Stcp False, Sleep 1000, Stcp True]"
    unfolding n rev_upt_2 using pwm by simp
  have d: "duty_257 64 = Inr 16448" by (simp add: duty_257_def)
  have f: "first_shift_register_data 2 = Inr 0b00000100"
    by (simp add: first_shift_register_data_def)
  have c: "second_shift_register_data 2 EASY_NIXIE_RED True False = 0b00101100"
    by (simp add: control_byte_defs)
  from t d have "tube_events duty_257 True (2, EASY_NIXIE_RED, True, False, 64)
        = Duty 16448 # tube_events duty_257 False (2, EASY_NIXIE_RED, True, False, 64)" by blast
  moreover from t f have "tube_events duty_257 False (2, EASY_NIXIE_RED, True, False, 64)
        = byte_events (second_shift_register_data 2 EASY_NIXIE_RED True False) @ byte_events 0b00000100"
    by blast
  ultimately have "tube_events duty_257 True (2, EASY_NIXIE_RED, True, False, 64)
        = Duty 16448 # byte_events 0b00101100 @ byte_events 0b00000100"
    using c by simp
  with s' ok w show ?thesis by blast
qed

end
